theory Spec2Isabelle
  imports Main
begin

section \<open>The service lifecycle manager\<close>

text \<open>
  This theory embeds the service package (the \<^verbatim>\<open>Manager\<close>, its per-service
  \<^verbatim>\<open>serviceState\<close> records and the functional options) as HOL functions.

  The manager starts every service in a goroutine of its own.  What such a goroutine
  does is decided by the caller's implementation of \<^verbatim>\<open>Service\<close>, and when it does
  it is decided by the scheduler.  The embedding makes both explicit:

  \<^item> a service carries, besides its name, the observable behaviour of its blocking
    \<^verbatim>\<open>Start\<close> call (does it return inside the 10 ms probe window, and with what;
    if it is still blocked then, what does it return when the manager waits for it,
    or does it never return) and the result of its \<^verbatim>\<open>Stop\<close>;
  \<^item> the \<^verbatim>\<open>sync.WaitGroup\<close> of a record is the list of its goroutines that have
    not returned yet, each with the result it will deliver; the counter of the Go
    code is the length of that list, and \<^verbatim>\<open>Wait\<close> lets every one of them return
    (or blocks for ever when one of them never returns);
  \<^item> the goroutines act at the blocking calls of the manager (the probe sleep and the
    waits) and, through \<open>taskExits\<close>, between two manager operations.
    \<^verbatim>\<open>Register\<close>, \<^verbatim>\<open>Start\<close>, \<^verbatim>\<open>Stop\<close>, \<^verbatim>\<open>StartService\<close> and
    \<^verbatim>\<open>StopService\<close> hold the manager's mutex from their first to their last line,
    so they never interleave with one another;
  \<^item> an operation that can block for ever returns an \<open>option\<close>, \<open>None\<close> meaning
    that it never returns.

  Two fields are ghost state that the Go structs do not have: \<open>history\<close> lists every
  value written to the atomic \<open>state\<close> cell of a record, and \<open>trace\<close> lists the calls
  the manager makes on the services.  The logger, the signal sets and the
  \<^verbatim>\<open>context.Context\<close> passed through to \<^verbatim>\<open>Service.Stop\<close> do not influence any
  decision of the manager and are left out.
\<close>

subsection \<open>Data\<close>

datatype ServiceState =
  StateStopped | StateStarting | StateRunning | StateStopping | StateError

datatype ServiceSequence = SequenceNone | SequenceFIFO | SequenceLIFO

text \<open>
  Go errors.  \<open>ServiceError\<close> is an error made by a service; the others are the
  \<^verbatim>\<open>fmt.Errorf\<close> values of the manager, named after the error kinds of the
  specification, with the formatted arguments as constructor arguments.
\<close>

datatype error =
    ServiceError string
  | DuplicateName string
  | NotFound string
  | AlreadyRunning string
  | NotRunning string
  | StartFailed string "error option"
  | StopFailed string error
  | StopErrors "error list"

text \<open>
  The behaviour of one call of \<^verbatim>\<open>Service.Start\<close>, seen from the manager:
  \<open>Returns r\<close> returns \<open>r\<close> before the probe window closes; \<open>Blocks u\<close> is still
  blocked then and, when the manager waits for it, returns \<open>r\<close> if \<open>u = Some r\<close> and
  never returns if \<open>u = None\<close>.
\<close>

datatype start_outcome = Returns "error option" | Blocks "error option option"

text \<open>
  The \<^verbatim>\<open>Service\<close> interface.  \<open>StartFn\<close> takes whether the context it is given is
  already cancelled.
\<close>

record Service =
  Name :: string
  StartFn :: "bool \<Rightarrow> start_outcome"
  StopFn :: "error option"

record serviceState =
  service :: Service
  state :: ServiceState
  cancelled :: bool
  lastError :: "error option"
  wg :: "error option option list"
  history :: "ServiceState list"

datatype action = CallStart string | Cancel string | CallStop string | WaitTask string

text \<open>
  The manager.  \<open>serviceMap\<close> holds pointers to the records of \<open>services\<close>; records
  are only ever appended, so a pointer is modelled by the position of its record.
  \<open>serviceSequence\<close> is the field that \<^verbatim>\<open>WithServiceSequence\<close> assigns.
\<close>

record Manager =
  services :: "serviceState list"
  serviceMap :: "string \<rightharpoonup> nat"
  shutdownTimeout :: nat
  serviceSequence :: ServiceSequence
  ctxCancelled :: bool
  trace :: "action list"

record ServiceInfo =
  InfoName :: string
  InfoState :: ServiceState
  InfoError :: "error option"

subsection \<open>Options and construction\<close>

datatype ManagerOption =
    WithShutdownTimeout nat
  | WithContext bool
  | WithServiceSequence ServiceSequence

fun applyOption :: "ManagerOption \<Rightarrow> Manager \<Rightarrow> Manager" where
  "applyOption (WithShutdownTimeout timeout) m = m\<lparr>shutdownTimeout := timeout\<rparr>"
| "applyOption (WithContext c) m = m\<lparr>ctxCancelled := c\<rparr>"
| "applyOption (WithServiceSequence sequence) m = m\<lparr>serviceSequence := sequence\<rparr>"

definition NewManager :: "ManagerOption list \<Rightarrow> Manager" where
  "NewManager options =
     fold applyOption options
       \<lparr>services = [], serviceMap = Map.empty, shutdownTimeout = 30,
        serviceSequence = SequenceNone, ctxCancelled = False, trace = []\<rparr>"

subsection \<open>Record accessors\<close>

definition setState :: "ServiceState \<Rightarrow> serviceState \<Rightarrow> serviceState" where
  "setState st s = s\<lparr>state := st, history := history s @ [st]\<rparr>"

definition getState :: "serviceState \<Rightarrow> ServiceState" where
  "getState s = state s"

definition setError :: "error option \<Rightarrow> serviceState \<Rightarrow> serviceState" where
  "setError err s = s\<lparr>lastError := err\<rparr>"

definition getError :: "serviceState \<Rightarrow> error option" where
  "getError s = lastError s"

subsection \<open>Registration and status\<close>

definition Register :: "Manager \<Rightarrow> Service \<Rightarrow> error option \<times> Manager" where
  "Register m svc =
     (if serviceMap m (Name svc) \<noteq> None then (Some (DuplicateName (Name svc)), m)
      else
        let st = setState StateStopped
                   \<lparr>service = svc, state = StateStopped, cancelled = ctxCancelled m,
                    lastError = None, wg = [], history = []\<rparr>
        in (None, m\<lparr>services := services m @ [st],
                     serviceMap := (serviceMap m)(Name svc \<mapsto> length (services m))\<rparr>))"

definition GetStatus :: "Manager \<Rightarrow> ServiceInfo list" where
  "GetStatus m =
     map (\<lambda>s. \<lparr>InfoName = Name (service s), InfoState = getState s, InfoError = getError s\<rparr>)
       (services m)"

text \<open>Registering a sequence of services, keeping every result.\<close>

fun registerAll :: "Manager \<Rightarrow> Service list \<Rightarrow> error option list \<times> Manager" where
  "registerAll m [] = ([], m)"
| "registerAll m (svc # svcs) =
     (case Register m svc of (r, m1) \<Rightarrow>
        (case registerAll m1 svcs of (rs, m2) \<Rightarrow> (r # rs, m2)))"

subsection \<open>The goroutine of a service\<close>

text \<open>
  What the goroutine does once \<^verbatim>\<open>Service.Start\<close> has returned \<open>r\<close>: on an error it
  stores the error and then sets the state to \<open>StateError\<close>; otherwise it sets the
  state to \<open>StateStopped\<close>.
\<close>

definition taskReturn :: "error option \<Rightarrow> serviceState \<Rightarrow> serviceState" where
  "taskReturn r s =
     (case r of
        Some err \<Rightarrow> setState StateError (setError (Some err) s)
      | None \<Rightarrow> setState StateStopped s)"

text \<open>
  The launch block that \<^verbatim>\<open>Start\<close> and \<^verbatim>\<open>StartService\<close> both contain: the state
  becomes \<open>StateStarting\<close>, the goroutine is started, and the manager sleeps through
  the probe window, in which the goroutine returns or not.
\<close>

definition launch :: "nat \<Rightarrow> Manager \<Rightarrow> Manager" where
  "launch i m =
     (let s = services m ! i;
          s1 = setState StateStarting s;
          s2 = (case StartFn (service s) (cancelled s) of
                  Returns r \<Rightarrow> taskReturn r s1
                | Blocks u \<Rightarrow> s1\<lparr>wg := wg s1 @ [u]\<rparr>)
      in m\<lparr>services := (services m)[i := s2],
            trace := trace m @ [CallStart (Name (service s))]\<rparr>)"

text \<open>
  \<^verbatim>\<open>state.wg.Wait()\<close>: every goroutine of the record returns, in the order in which
  they were started; the wait never ends when one of them never returns.
\<close>

definition awaitTasks :: "serviceState \<Rightarrow> serviceState option" where
  "awaitTasks s =
     (case those (wg s) of
        None \<Rightarrow> None
      | Some rs \<Rightarrow> Some ((fold taskReturn rs s)\<lparr>wg := []\<rparr>))"

text \<open>A goroutine of record \<open>i\<close> returns \<open>r\<close> by itself, while no operation runs.\<close>

definition taskExits :: "nat \<Rightarrow> error option \<Rightarrow> Manager \<Rightarrow> Manager" where
  "taskExits i r m =
     (if i < length (services m) \<and> wg (services m ! i) \<noteq> []
      then m\<lparr>services :=
               (services m)[i := (taskReturn r (services m ! i))\<lparr>wg := tl (wg (services m ! i))\<rparr>]\<rparr>
      else m)"

subsection \<open>Stopping\<close>

text \<open>
  The loop of \<^verbatim>\<open>stopAllServices\<close> over the indices it still has to visit, with the
  errors collected so far.
\<close>

fun stopLoop :: "Manager \<Rightarrow> nat list \<Rightarrow> error list \<Rightarrow> (error list \<times> Manager) option" where
  "stopLoop m [] errors = Some (errors, m)"
| "stopLoop m (i # is) errors =
     (let s = services m ! i in
      if getState s = StateStopped then stopLoop m is errors
      else
        let name = Name (service s);
            s1 = (setState StateStopping s)\<lparr>cancelled := True\<rparr>;
            s2 = (case StopFn (service s) of
                    Some err \<Rightarrow> setState StateError (setError (Some err) s1)
                  | None \<Rightarrow> s1);
            errors' = (case StopFn (service s) of
                         Some err \<Rightarrow> errors @ [StopFailed name err]
                       | None \<Rightarrow> errors)
        in case awaitTasks s2 of
             None \<Rightarrow> None
           | Some s3 \<Rightarrow>
               stopLoop
                 (m\<lparr>services := (services m)[i := s3],
                    trace := trace m @ [Cancel name, CallStop name, WaitTask name]\<rparr>)
                 is errors')"

definition stopAllServices :: "Manager \<Rightarrow> (error option \<times> Manager) option" where
  "stopAllServices m =
     (case stopLoop m (rev [0..<length (services m)]) [] of
        None \<Rightarrow> None
      | Some (errors, m') \<Rightarrow>
          Some (if errors \<noteq> [] then Some (StopErrors errors) else None, m'))"

definition Stop :: "Manager \<Rightarrow> (error option \<times> Manager) option" where
  "Stop m = stopAllServices m"

definition StopService :: "Manager \<Rightarrow> string \<Rightarrow> (error option \<times> Manager) option" where
  "StopService m name =
     (case serviceMap m name of
        None \<Rightarrow> Some (Some (NotFound name), m)
      | Some i \<Rightarrow>
          let s = services m ! i in
          if getState s = StateStopped then Some (Some (NotRunning name), m)
          else
            let s1 = (setState StateStopping s)\<lparr>cancelled := True\<rparr>;
                m1 = m\<lparr>trace := trace m @ [Cancel (Name (service s)), CallStop (Name (service s))]\<rparr>
            in case StopFn (service s) of
                 Some err \<Rightarrow>
                   Some (Some (StopFailed name err),
                         m1\<lparr>services :=
                              (services m)[i := setState StateError (setError (Some err) s1)]\<rparr>)
               | None \<Rightarrow>
                   (case awaitTasks s1 of
                      None \<Rightarrow> None
                    | Some s2 \<Rightarrow>
                        Some (None,
                              m1\<lparr>services := (services m)[i := s2],
                                 trace := trace m1 @ [WaitTask (Name (service s))]\<rparr>)))"

subsection \<open>Starting\<close>

fun startLoop :: "Manager \<Rightarrow> nat list \<Rightarrow> (error option \<times> Manager) option" where
  "startLoop m [] = Some (None, m)"
| "startLoop m (i # is) =
     (if getState (services m ! i) = StateRunning then startLoop m is
      else
        let m1 = launch i m in
        if getState (services m1 ! i) = StateError then
          (case stopAllServices m1 of
             None \<Rightarrow> None
           | Some (r, m2) \<Rightarrow>
               Some (Some (StartFailed (Name (service (services m2 ! i)))
                             (getError (services m2 ! i))), m2))
        else
          startLoop
            (m1\<lparr>services := (services m1)[i := setState StateRunning (services m1 ! i)]\<rparr>) is)"

definition Start :: "Manager \<Rightarrow> (error option \<times> Manager) option" where
  "Start m = startLoop m [0..<length (services m)]"

definition StartService :: "Manager \<Rightarrow> string \<Rightarrow> error option \<times> Manager" where
  "StartService m name =
     (case serviceMap m name of
        None \<Rightarrow> (Some (NotFound name), m)
      | Some i \<Rightarrow>
          if getState (services m ! i) = StateRunning then (Some (AlreadyRunning name), m)
          else
            let m1 = launch i m in
            if getState (services m1 ! i) = StateError
            then (Some (StartFailed name (getError (services m1 ! i))), m1)
            else (None,
                  m1\<lparr>services := (services m1)[i := setState StateRunning (services m1 ! i)]\<rparr>))"

subsection \<open>Shutdown\<close>

text \<open>
  \<^verbatim>\<open>o.cancel()\<close> cancels the manager's context and with it the context of every
  record, which was derived from it.
\<close>

definition cancelAll :: "Manager \<Rightarrow> Manager" where
  "cancelAll m =
     m\<lparr>ctxCancelled := True, services := map (\<lambda>s. s\<lparr>cancelled := True\<rparr>) (services m)\<rparr>"

text \<open>\<^verbatim>\<open>o.waitGroup.Wait()\<close>: every goroutine of every record returns.\<close>

definition waitAll :: "Manager \<Rightarrow> Manager option" where
  "waitAll m =
     (case those (map awaitTasks (services m)) of
        None \<Rightarrow> None
      | Some ss \<Rightarrow> Some (m\<lparr>services := ss\<rparr>))"

definition Shutdown :: "Manager \<Rightarrow> (error option \<times> Manager) option" where
  "Shutdown m =
     (case Stop (cancelAll m) of
        None \<Rightarrow> None
      | Some (err, m1) \<Rightarrow>
          (case waitAll m1 of
             None \<Rightarrow> None
           | Some m2 \<Rightarrow> Some (err, m2)))"

subsection \<open>Notions used in the statements\<close>







subsection \<open>The state machine of a record\<close>

text \<open>
  A history follows a set of edges when every write either repeats the value that the
  cell holds or moves along an edge.
\<close>

fun follows :: "(ServiceState \<Rightarrow> ServiceState \<Rightarrow> bool) \<Rightarrow> ServiceState list \<Rightarrow> bool" where
  "follows E (a # b # h) = ((a = b \<or> E a b) \<and> follows E (b # h))"
| "follows E h = True"

text \<open>
  The edges as the specification lists them, in its order: Stopped to Starting,
  Starting to Error, Starting to Running, Running to Stopped, Running or Starting to
  Stopping, Stopping to Stopped, Stopping to Error, Running to Error.
\<close>

definition spec_edge :: "ServiceState \<Rightarrow> ServiceState \<Rightarrow> bool" where
  "spec_edge a b =
     ((a, b) \<in> {(StateStopped, StateStarting), (StateStarting, StateError),
                (StateStarting, StateRunning), (StateRunning, StateStopped),
                (StateRunning, StateStopping), (StateStarting, StateStopping),
                (StateStopping, StateStopped), (StateStopping, StateError),
                (StateRunning, StateError)})"

text \<open>
  The edges of the code: those of the specification and nine more.  A goroutine that
  returns sets \<open>StateStopped\<close> or \<open>StateError\<close> whatever the state is; a start is
  refused only for a record read as running; the probe overwrites any state that it
  read as other than \<open>StateError\<close> with \<open>StateRunning\<close>; a stop is refused or skipped
  only for a record read as stopped.  The last two edges need a goroutine that returns
  between a test of the manager and the write that follows the test; the functions
  above let goroutines return at the blocking calls only, and never take them.
\<close>

definition code_edge :: "ServiceState \<Rightarrow> ServiceState \<Rightarrow> bool" where
  "code_edge a b =
     (spec_edge a b \<or>
      (a, b) \<in> {(StateStarting, StateStopped), (StateStopped, StateRunning),
                (StateStopped, StateError), (StateStopping, StateStarting),
                (StateError, StateStarting), (StateError, StateStopping),
                (StateError, StateStopped),
                (StateError, StateRunning), (StateStopped, StateStopping)})"

text \<open>
  The writes the code makes to one record, each with the test that the code makes
  before it: \<open>StateStarting\<close> is written to a record that is not running,
  \<open>StateRunning\<close> to a record that was set starting and has since at most been set
  stopped by its goroutine, \<open>StateStopping\<close> to a record that is not stopped,
  \<open>StateError\<close> to a record whose last error has been stored.
\<close>

inductive rec_step :: "serviceState \<Rightarrow> serviceState \<Rightarrow> bool" where
  starting: "getState s \<noteq> StateRunning \<Longrightarrow> rec_step s (setState StateStarting s)"
| running: "getState s = StateStarting \<or> getState s = StateStopped \<Longrightarrow>
            rec_step s (setState StateRunning s)"
| stopping: "getState s \<noteq> StateStopped \<Longrightarrow> rec_step s (setState StateStopping s)"
| stopped: "rec_step s (setState StateStopped s)"
| stored: "rec_step s (setError (Some err) s)"
| failed: "lastError s \<noteq> None \<Longrightarrow> rec_step s (setState StateError s)"
| cancel: "rec_step s (s\<lparr>cancelled := True\<rparr>)"
| tasks: "rec_step s (s\<lparr>wg := w\<rparr>)"

definition evolves :: "Manager \<Rightarrow> Manager \<Rightarrow> bool" where
  "evolves m m' = list_all2 rec_step\<^sup>*\<^sup>* (services m) (services m')"

text \<open>
  A goroutine of record \<open>i\<close> whose \<^verbatim>\<open>Start\<close> has failed has stored the error and
  has not set the state yet.
\<close>

definition taskStoresError :: "nat \<Rightarrow> error \<Rightarrow> Manager \<Rightarrow> Manager" where
  "taskStoresError i err m =
     (if i < length (services m) \<and> wg (services m ! i) \<noteq> []
      then m\<lparr>services := (services m)[i := setError (Some err) (services m ! i)]\<rparr>
      else m)"

text \<open>
  The managers a program can observe: a new manager, and what an operation that
  returns, or a goroutine that returns, makes of one.
\<close>

inductive reachable :: "Manager \<Rightarrow> bool" where
  new: "reachable (NewManager options)"
| register: "reachable m \<Longrightarrow> reachable (snd (Register m svc))"
| start: "reachable m \<Longrightarrow> Start m = Some (r, m') \<Longrightarrow> reachable m'"
| stop: "reachable m \<Longrightarrow> Stop m = Some (r, m') \<Longrightarrow> reachable m'"
| startService: "reachable m \<Longrightarrow> reachable (snd (StartService m name))"
| stopService: "reachable m \<Longrightarrow> StopService m name = Some (r, m') \<Longrightarrow> reachable m'"
| shutdown: "reachable m \<Longrightarrow> Shutdown m = Some (r, m') \<Longrightarrow> reachable m'"
| stores: "reachable m \<Longrightarrow> reachable (taskStoresError i err m)"
| exits: "reachable m \<Longrightarrow> reachable (taskExits i r m)"

subsection \<open>Example services and managers\<close>

text \<open>A service that runs until it is stopped and then returns without error.\<close>

definition worker :: "string \<Rightarrow> Service" where
  "worker n = \<lparr>Name = n, StartFn = (\<lambda>c. Blocks (Some None)), StopFn = None\<rparr>"

text \<open>A service whose \<^verbatim>\<open>Start\<close> fails at once.\<close>

definition failing :: "string \<Rightarrow> Service" where
  "failing n =
     \<lparr>Name = n, StartFn = (\<lambda>c. Returns (Some (ServiceError ''boom''))), StopFn = None\<rparr>"

text \<open>
  A service whose \<^verbatim>\<open>Start\<close> returns without error at once, as the
  \<^verbatim>\<open>ExampleService\<close> of the package's README does.
\<close>

definition oneshot :: "string \<Rightarrow> Service" where
  "oneshot n = \<lparr>Name = n, StartFn = (\<lambda>c. Returns None), StopFn = None\<rparr>"

text \<open>A service that runs until it is stopped, and whose \<^verbatim>\<open>Stop\<close> fails.\<close>

definition stubborn :: "string \<Rightarrow> Service" where
  "stubborn n =
     \<lparr>Name = n, StartFn = (\<lambda>c. Blocks (Some None)), StopFn = Some (ServiceError ''stuck'')\<rparr>"

definition registered :: "Service list \<Rightarrow> Manager" where
  "registered svcs = snd (registerAll (NewManager []) svcs)"

definition started :: "Service list \<Rightarrow> Manager" where
  "started svcs = snd (the (Start (registered svcs)))"

section \<open>Properties\<close>

subsection \<open>Registration\<close>

lemma Register_fresh:
  "serviceMap m (Name svc) = None \<Longrightarrow>
     fst (Register m svc) = None \<and>
     map (\<lambda>s. Name (service s)) (services (snd (Register m svc))) =
       map (\<lambda>s. Name (service s)) (services m) @ [Name svc] \<and>
     dom (serviceMap (snd (Register m svc))) = insert (Name svc) (dom (serviceMap m))"
  by (auto simp: Register_def Let_def setState_def)

lemma Register_duplicate:
  "serviceMap m (Name svc) \<noteq> None \<Longrightarrow> Register m svc = (Some (DuplicateName (Name svc)), m)"
  by (simp add: Register_def)

lemma registerAll_distinct:
  "distinct (map Name svcs) \<Longrightarrow> set (map Name svcs) \<inter> dom (serviceMap m) = {} \<Longrightarrow>
     registerAll m svcs = (rs, m') \<Longrightarrow>
     rs = replicate (length svcs) None \<and>
     map (\<lambda>s. Name (service s)) (services m') =
       map (\<lambda>s. Name (service s)) (services m) @ map Name svcs \<and>
     dom (serviceMap m') = dom (serviceMap m) \<union> set (map Name svcs)"
proof (induction svcs arbitrary: m rs m')
  case Nil
  then show ?case by simp
next
  case (Cons svc svcs)
  obtain r m1 where reg: "Register m svc = (r, m1)" by (cases "Register m svc")
  obtain rs1 m2 where rest: "registerAll m1 svcs = (rs1, m2)" by (cases "registerAll m1 svcs")
  from Cons.prems(2) have fresh: "serviceMap m (Name svc) = None" by auto
  from Register_fresh[OF fresh] reg
  have r: "r = None"
    and names1: "map (\<lambda>s. Name (service s)) (services m1) =
                   map (\<lambda>s. Name (service s)) (services m) @ [Name svc]"
    and dom1: "dom (serviceMap m1) = insert (Name svc) (dom (serviceMap m))"
    by simp_all
  from Cons.prems(1) have d: "distinct (map Name svcs)" and nin: "Name svc \<notin> set (map Name svcs)"
    by simp_all
  from Cons.prems(2) nin dom1 have disj: "set (map Name svcs) \<inter> dom (serviceMap m1) = {}"
    by auto
  from Cons.prems(3) reg rest have res: "rs = r # rs1" "m' = m2" by simp_all
  from Cons.IH[OF d disj rest] r names1 dom1 res show ?case by auto
qed

lemma NewManager_empty:
  "services (NewManager opts) = [] \<and> serviceMap (NewManager opts) = Map.empty"
proof -
  have "services (fold applyOption opts m) = services m \<and>
        serviceMap (fold applyOption opts m) = serviceMap m" for m
  proof (induction opts arbitrary: m)
    case Nil
    then show ?case by simp
  next
    case (Cons a opts)
    then show ?case by (cases a) simp_all
  qed
  then show ?thesis by (simp add: NewManager_def)
qed

text \<open>
  C5.  Registering services with pairwise distinct names into a new manager succeeds
  every time, and the status afterwards lists exactly these names in the order of
  registration.  Registering a service whose name is present, in that manager or in any
  other, fails with \<open>DuplicateName\<close> and returns the manager as it was.
\<close>

theorem Register_distinct_names:
  "distinct (map Name svcs) \<Longrightarrow> registerAll (NewManager opts) svcs = (rs, m) \<Longrightarrow>
     rs = replicate (length svcs) None \<and>
     map InfoName (GetStatus m) = map Name svcs \<and>
     (\<forall>svc. Name svc \<in> set (map Name svcs) \<longrightarrow>
        Register m svc = (Some (DuplicateName (Name svc)), m)) \<and>
     (\<forall>m0 svc. serviceMap m0 (Name svc) \<noteq> None \<longrightarrow>
        Register m0 svc = (Some (DuplicateName (Name svc)), m0))"
proof -
  assume d: "distinct (map Name svcs)" and reg: "registerAll (NewManager opts) svcs = (rs, m)"
  have disj: "set (map Name svcs) \<inter> dom (serviceMap (NewManager opts)) = {}"
    by (simp add: NewManager_empty)
  from registerAll_distinct[OF d disj reg]
  have rs: "rs = replicate (length svcs) None"
    and names: "map (\<lambda>s. Name (service s)) (services m) = map Name svcs"
    and dm: "dom (serviceMap m) = set (map Name svcs)"
    by (simp_all add: NewManager_empty)
  have st: "map InfoName (GetStatus m) = map Name svcs"
    using names by (simp add: GetStatus_def comp_def)
  have dup: "\<forall>svc. Name svc \<in> set (map Name svcs) \<longrightarrow>
        Register m svc = (Some (DuplicateName (Name svc)), m)"
  proof (intro allI impI)
    fix svc :: Service
    assume "Name svc \<in> set (map Name svcs)"
    with dm have "serviceMap m (Name svc) \<noteq> None" by (metis domIff)
    then show "Register m svc = (Some (DuplicateName (Name svc)), m)" by (rule Register_duplicate)
  qed
  from rs st dup Register_duplicate show ?thesis by blast
qed

theorem Register_distinct_names_witness:
  "registerAll (NewManager []) [worker ''a'', worker ''b'', worker ''c''] =
     ([None, None, None], registered [worker ''a'', worker ''b'', worker ''c'']) \<and>
   map InfoName (GetStatus (registered [worker ''a'', worker ''b'', worker ''c''])) =
     [''a'', ''b'', ''c''] \<and>
   Register (registered [worker ''a'', worker ''b'', worker ''c'']) (failing ''b'') =
     (Some (DuplicateName ''b''), registered [worker ''a'', worker ''b'', worker ''c''])"
proof -
  let ?svcs = "[worker ''a'', worker ''b'', worker ''c'']"
  have d: "distinct (map Name ?svcs)" by (simp add: worker_def)
  have r: "registerAll (NewManager []) ?svcs = (fst (registerAll (NewManager []) ?svcs), registered ?svcs)"
    by (simp add: registered_def)
  have n: "Name (failing ''b'') \<in> set (map Name ?svcs)" by (simp add: worker_def failing_def)
  from Register_distinct_names[OF d r] n
  have "fst (registerAll (NewManager []) ?svcs) = replicate (length ?svcs) None"
    and "map InfoName (GetStatus (registered ?svcs)) = map Name ?svcs"
    and "Register (registered ?svcs) (failing ''b'') =
           (Some (DuplicateName (Name (failing ''b''))), registered ?svcs)"
    by blast+
  with r show ?thesis by (simp add: worker_def failing_def)
qed

subsection \<open>Requests for one service\<close>

text \<open>
  C6.  \<open>StartService\<close> and \<open>StopService\<close> on a name that the index does not hold
  fail with \<open>NotFound\<close>; \<open>StartService\<close> on a record that is running fails with
  \<open>AlreadyRunning\<close>; \<open>StopService\<close> on a record that is stopped fails with
  \<open>NotRunning\<close>.  In each case the manager is returned as it was: no state is
  written and no call is made on the service.
\<close>

theorem targeted_request_errors:
  "(serviceMap m name = None \<longrightarrow>
      StartService m name = (Some (NotFound name), m) \<and>
      StopService m name = Some (Some (NotFound name), m)) \<and>
   (\<forall>i. serviceMap m name = Some i \<and> getState (services m ! i) = StateRunning \<longrightarrow>
      StartService m name = (Some (AlreadyRunning name), m)) \<and>
   (\<forall>i. serviceMap m name = Some i \<and> getState (services m ! i) = StateStopped \<longrightarrow>
      StopService m name = Some (Some (NotRunning name), m))"
  by (simp add: StartService_def StopService_def)

theorem targeted_request_errors_witness:
  "StartService (registered [worker ''a'']) ''ghost'' =
     (Some (NotFound ''ghost''), registered [worker ''a'']) \<and>
   StopService (registered [worker ''a'']) ''ghost'' =
     Some (Some (NotFound ''ghost''), registered [worker ''a'']) \<and>
   StartService (started [worker ''a'']) ''a'' =
     (Some (AlreadyRunning ''a''), started [worker ''a'']) \<and>
   StopService (registered [worker ''a'']) ''a'' =
     Some (Some (NotRunning ''a''), registered [worker ''a''])"
proof -
  have absent: "serviceMap (registered [worker ''a'']) ''ghost'' = None"
    by (simp add: registered_def Register_def NewManager_def worker_def Let_def)
  have stopped: "serviceMap (registered [worker ''a'']) ''a'' = Some 0 \<and>
      getState (services (registered [worker ''a'']) ! 0) = StateStopped"
    by (simp add: registered_def Register_def NewManager_def worker_def Let_def
        setState_def getState_def)
  have running: "serviceMap (started [worker ''a'']) ''a'' = Some 0 \<and>
      getState (services (started [worker ''a'']) ! 0) = StateRunning"
    by (simp add: started_def Start_def launch_def registered_def Register_def NewManager_def
        worker_def Let_def setState_def getState_def)
  from targeted_request_errors[of "registered [worker ''a'']" "''ghost''"] absent
       targeted_request_errors[of "started [worker ''a'']" "''a''"] running
       targeted_request_errors[of "registered [worker ''a'']" "''a''"] stopped
  show ?thesis by blast
qed

subsection \<open>Waiting for goroutines\<close>






subsection \<open>Stopping every service\<close>








lemmas model_defs =
  registered_def started_def NewManager_def Register_def Start_def launch_def
  setState_def getState_def setError_def getError_def taskReturn_def awaitTasks_def
  worker_def failing_def oneshot_def stubborn_def Let_def



subsection \<open>Stopping one service whose stop operation fails\<close>

text \<open>
  C3.  One service is running and its stop operation fails.  \<open>StopService\<close> marks the
  record \<open>StateError\<close> and returns at once: the goroutine of the service is still
  running when the request returns, and no wait was made.  The batch stop, on the same
  manager, does wait: no goroutine is left when it returns.
\<close>

theorem StopService_returns_without_wait:
  "\<exists>m'. StopService (started [stubborn ''a'']) ''a'' =
          Some (Some (StopFailed ''a'' (ServiceError ''stuck'')), m') \<and>
        getState (services m' ! 0) = StateError \<and>
        wg (services m' ! 0) = [Some None] \<and>
        trace m' = [CallStart ''a'', Cancel ''a'', CallStop ''a''] \<and>
        (\<exists>m''. Stop (started [stubborn ''a'']) =
                 Some (Some (StopErrors [StopFailed ''a'' (ServiceError ''stuck'')]), m'') \<and>
               wg (services m'' ! 0) = [] \<and>
               trace m'' = [CallStart ''a'', Cancel ''a'', CallStop ''a'', WaitTask ''a''])"
  by (simp add: model_defs StopService_def Stop_def stopAllServices_def)

subsection \<open>Starting every service\<close>








text \<open>
  The last error is read after the rollback.  When the stop operation of the service
  that failed to start fails too, the rollback has stored the error of the stop
  operation in the record by then, and that is the error \<open>StartFailed\<close> holds.
\<close>

lemma Start_reads_error_after_rollback:
  "\<exists>m'. Start (registered [\<lparr>Name = ''b'', StartFn = (\<lambda>c. Returns (Some (ServiceError ''boom''))),
                              StopFn = Some (ServiceError ''stuck'')\<rparr>]) =
          Some (Some (StartFailed ''b'' (Some (ServiceError ''stuck''))), m')"
  by (simp add: model_defs stopAllServices_def)

subsection \<open>Shutdown\<close>











subsection \<open>The ordering mode\<close>









subsection \<open>Every operation acts on a record by the writes of the code\<close>

lemma evolves_refl: "evolves m m"
  by (simp add: evolves_def list_all2_refl)

lemma evolves_trans:
  assumes a: "evolves m m1" and b: "evolves m1 m2"
  shows "evolves m m2"
  unfolding evolves_def
  by (rule list_all2_trans[OF _ a[unfolded evolves_def] b[unfolded evolves_def]])
     (rule rtranclp_trans)

lemma evolves_update:
  assumes "i < length (services m) \<longrightarrow> rec_step\<^sup>*\<^sup>* (services m ! i) y"
    and "services m' = (services m)[i := y]"
  shows "evolves m m'"
proof (cases "i < length (services m)")
  case True
  with assms(1) have y: "rec_step\<^sup>*\<^sup>* (services m ! i) y" by simp
  have r: "list_all2 rec_step\<^sup>*\<^sup>* (services m) (services m)"
    by (simp add: list_all2_refl)
  have "list_all2 rec_step\<^sup>*\<^sup>* ((services m)[i := services m ! i]) ((services m)[i := y])"
    using r y by (rule list_all2_update_cong)
  then show ?thesis by (simp add: evolves_def assms(2))
next
  case False
  then have "(services m)[i := y] = services m" by (simp add: list_update_beyond)
  then show ?thesis by (simp add: evolves_def assms(2) list_all2_refl)
qed

lemma taskReturn_steps: "rec_step\<^sup>*\<^sup>* s (taskReturn r s)"
proof (cases r)
  case None
  then show ?thesis by (simp add: taskReturn_def rec_step.stopped r_into_rtranclp)
next
  case (Some err)
  have "rec_step s (setError (Some err) s)" by (rule rec_step.stored)
  moreover have "rec_step (setError (Some err) s) (setState StateError (setError (Some err) s))"
    by (rule rec_step.failed) (simp add: setError_def)
  ultimately show ?thesis using Some by (simp add: taskReturn_def)
qed

lemma fold_taskReturn_steps: "rec_step\<^sup>*\<^sup>* s (fold taskReturn rs s)"
proof (induction rs arbitrary: s)
  case Nil
  then show ?case by simp
next
  case (Cons r rs)
  from taskReturn_steps[of s r] Cons[of "taskReturn r s"] show ?case by simp
qed

lemma awaitTasks_steps: "awaitTasks s = Some s' \<Longrightarrow> rec_step\<^sup>*\<^sup>* s s'"
proof -
  assume a: "awaitTasks s = Some s'"
  then obtain rs where s': "s' = (fold taskReturn rs s)\<lparr>wg := []\<rparr>"
    by (auto simp: awaitTasks_def split: option.splits)
  have "rec_step (fold taskReturn rs s) s'" unfolding s' by (rule rec_step.tasks)
  with fold_taskReturn_steps[of s rs] show ?thesis by simp
qed

lemma launch_record_steps:
  "getState s \<noteq> StateRunning \<Longrightarrow>
   rec_step\<^sup>*\<^sup>* s (case StartFn (service s) (cancelled s) of
                  Returns r \<Rightarrow> taskReturn r (setState StateStarting s)
                | Blocks u \<Rightarrow> (setState StateStarting s)\<lparr>wg := wg (setState StateStarting s) @ [u]\<rparr>)"
proof -
  assume g: "getState s \<noteq> StateRunning"
  then have st: "rec_step s (setState StateStarting s)" by (rule rec_step.starting)
  show ?thesis
  proof (cases "StartFn (service s) (cancelled s)")
    case (Returns r)
    with st taskReturn_steps[of "setState StateStarting s" r] show ?thesis by simp
  next
    case (Blocks u)
    have "rec_step (setState StateStarting s)
            ((setState StateStarting s)\<lparr>wg := wg (setState StateStarting s) @ [u]\<rparr>)"
      by (rule rec_step.tasks)
    with st Blocks show ?thesis by simp
  qed
qed

lemma launch_evolves:
  "getState (services m ! i) \<noteq> StateRunning \<Longrightarrow> evolves m (launch i m)"
  by (rule evolves_update[where i = i]) (simp_all add: launch_def Let_def launch_record_steps)

lemma launch_state:
  "i < length (services m) \<Longrightarrow>
   getState (services (launch i m) ! i) \<in> {StateStarting, StateStopped, StateError}"
  by (simp add: launch_def Let_def taskReturn_def setState_def setError_def getState_def
      split: start_outcome.splits option.splits)

lemma probe_evolves:
  "getState (services m ! i) \<noteq> StateRunning \<Longrightarrow>
   getState (services (launch i m) ! i) \<noteq> StateError \<Longrightarrow>
   evolves m ((launch i m)\<lparr>services :=
       (services (launch i m))[i := setState StateRunning (services (launch i m) ! i)]\<rparr>)"
proof -
  assume g: "getState (services m ! i) \<noteq> StateRunning"
    and ne: "getState (services (launch i m) ! i) \<noteq> StateError"
  let ?m1 = "launch i m"
  have len: "length (services ?m1) = length (services m)" by (simp add: launch_def Let_def)
  have "evolves ?m1 (?m1\<lparr>services := (services ?m1)[i := setState StateRunning (services ?m1 ! i)]\<rparr>)"
  proof (rule evolves_update[where i = i])
    show "i < length (services ?m1) \<longrightarrow>
          rec_step\<^sup>*\<^sup>* (services ?m1 ! i) (setState StateRunning (services ?m1 ! i))"
    proof
      assume "i < length (services ?m1)"
      with len launch_state[of i m] ne
      have "getState (services ?m1 ! i) = StateStarting \<or> getState (services ?m1 ! i) = StateStopped"
        by auto
      then show "rec_step\<^sup>*\<^sup>* (services ?m1 ! i) (setState StateRunning (services ?m1 ! i))"
        by (intro r_into_rtranclp rec_step.running)
    qed
  qed simp
  with launch_evolves[OF g] show ?thesis by (rule evolves_trans)
qed

lemma stop_record_steps:
  "getState s \<noteq> StateStopped \<Longrightarrow>
   rec_step\<^sup>*\<^sup>* s (case e of
                  Some err \<Rightarrow> setState StateError (setError (Some err) ((setState StateStopping s)\<lparr>cancelled := True\<rparr>))
                | None \<Rightarrow> (setState StateStopping s)\<lparr>cancelled := True\<rparr>)"
proof -
  assume g: "getState s \<noteq> StateStopped"
  let ?s1 = "(setState StateStopping s)\<lparr>cancelled := True\<rparr>"
  have "rec_step s (setState StateStopping s)" using g by (rule rec_step.stopping)
  moreover have "rec_step (setState StateStopping s) ?s1" by (rule rec_step.cancel)
  ultimately have s1: "rec_step\<^sup>*\<^sup>* s ?s1" by simp
  show ?thesis
  proof (cases e)
    case None
    with s1 show ?thesis by simp
  next
    case (Some err)
    have "rec_step ?s1 (setError (Some err) ?s1)" by (rule rec_step.stored)
    moreover have "rec_step (setError (Some err) ?s1) (setState StateError (setError (Some err) ?s1))"
      by (rule rec_step.failed) (simp add: setError_def)
    ultimately show ?thesis using s1 Some by simp
  qed
qed

lemma stopLoop_evolves: "stopLoop m is errs = Some (es, m') \<Longrightarrow> evolves m m'"
proof (induction "is" arbitrary: m errs)
  case Nil
  then show ?case by (simp add: evolves_refl)
next
  case (Cons i "is")
  let ?s = "services m ! i"
  show ?case
  proof (cases "getState ?s = StateStopped")
    case True
    with Cons show ?thesis by simp
  next
    case False
    let ?s2 = "case StopFn (service ?s) of
                  Some err \<Rightarrow> setState StateError (setError (Some err) ((setState StateStopping ?s)\<lparr>cancelled := True\<rparr>))
                | None \<Rightarrow> (setState StateStopping ?s)\<lparr>cancelled := True\<rparr>"
    from Cons.prems False obtain s3 where s3: "awaitTasks ?s2 = Some s3"
      by (auto simp: Let_def split: option.splits)
    let ?m1 = "m\<lparr>services := (services m)[i := s3],
                  trace := trace m @ [Cancel (Name (service ?s)), CallStop (Name (service ?s)),
                                     WaitTask (Name (service ?s))]\<rparr>"
    from Cons.prems False s3 have rest: "stopLoop ?m1 is
        (case StopFn (service ?s) of Some err \<Rightarrow> errs @ [StopFailed (Name (service ?s)) err]
         | None \<Rightarrow> errs) = Some (es, m')"
      by (simp add: Let_def)
    from stop_record_steps[OF False, of "StopFn (service ?s)"] awaitTasks_steps[OF s3]
    have "rec_step\<^sup>*\<^sup>* ?s s3" by simp
    then have "evolves m ?m1" by (intro evolves_update[where i = i and y = s3]) simp_all
    with Cons.IH[OF rest] show ?thesis by (rule evolves_trans[rotated])
  qed
qed

lemma stopAllServices_evolves: "stopAllServices m = Some (r, m') \<Longrightarrow> evolves m m'"
  by (auto simp: stopAllServices_def split: option.splits dest: stopLoop_evolves)

lemma startLoop_evolves: "startLoop m is = Some (r, m') \<Longrightarrow> evolves m m'"
proof (induction "is" arbitrary: m)
  case Nil
  then show ?case by (simp add: evolves_refl)
next
  case (Cons i "is")
  show ?case
  proof (cases "getState (services m ! i) = StateRunning")
    case True
    with Cons show ?thesis by simp
  next
    case False
    let ?m1 = "launch i m"
    show ?thesis
    proof (cases "getState (services ?m1 ! i) = StateError")
      case True
      with Cons.prems False obtain q where "stopAllServices ?m1 = Some (q, m')"
        by (auto simp: Let_def split: option.splits)
      from launch_evolves[OF False] stopAllServices_evolves[OF this]
      show ?thesis by (rule evolves_trans)
    next
      case notErr: False
      let ?m2 = "?m1\<lparr>services := (services ?m1)[i := setState StateRunning (services ?m1 ! i)]\<rparr>"
      from Cons.prems False notErr have "startLoop ?m2 is = Some (r, m')"
        by (simp add: Let_def)
      from probe_evolves[OF False notErr] Cons.IH[OF this]
      show ?thesis by (rule evolves_trans)
    qed
  qed
qed

lemma StartService_evolves: "evolves m (snd (StartService m name))"
proof (cases "serviceMap m name")
  case None
  then show ?thesis by (simp add: StartService_def evolves_refl)
next
  case (Some i)
  show ?thesis
  proof (cases "getState (services m ! i) = StateRunning")
    case True
    with Some show ?thesis by (simp add: StartService_def evolves_refl)
  next
    case False
    show ?thesis
    proof (cases "getState (services (launch i m) ! i) = StateError")
      case True
      with Some False launch_evolves[OF False] show ?thesis
        by (simp add: StartService_def Let_def)
    next
      case notErr: False
      with Some False probe_evolves[OF False notErr] show ?thesis
        by (simp add: StartService_def Let_def)
    qed
  qed
qed

lemma StopService_evolves: "StopService m name = Some (r, m') \<Longrightarrow> evolves m m'"
proof (cases "serviceMap m name")
  case None
  assume "StopService m name = Some (r, m')"
  with None show ?thesis by (simp add: StopService_def evolves_refl)
next
  case (Some i)
  assume a: "StopService m name = Some (r, m')"
  let ?s = "services m ! i"
  show ?thesis
  proof (cases "getState ?s = StateStopped")
    case True
    with Some a show ?thesis by (auto simp: StopService_def evolves_refl)
  next
    case False
    let ?s1 = "(setState StateStopping ?s)\<lparr>cancelled := True\<rparr>"
    show ?thesis
    proof (cases "StopFn (service ?s)")
      case (Some err)
      from stop_record_steps[OF False, of "Some err"]
      have st: "rec_step\<^sup>*\<^sup>* ?s (setState StateError (setError (Some err) ?s1))" by simp
      from a \<open>serviceMap m name = Some i\<close> False Some
      have "services m' = (services m)[i := setState StateError (setError (Some err) ?s1)]"
        by (auto simp: StopService_def Let_def)
      with st show ?thesis by (intro evolves_update[where i = i]) simp_all
    next
      case None
      from a \<open>serviceMap m name = Some i\<close> False None obtain s2 where
        s2: "awaitTasks ?s1 = Some s2" and m': "services m' = (services m)[i := s2]"
        by (auto simp: StopService_def Let_def split: option.splits)
      from stop_record_steps[OF False, of None] awaitTasks_steps[OF s2]
      have "rec_step\<^sup>*\<^sup>* ?s s2" by simp
      with m' show ?thesis by (intro evolves_update[where i = i]) simp_all
    qed
  qed
qed

lemma cancelAll_evolves: "evolves m (cancelAll m)"
proof -
  have "list_all2 rec_step\<^sup>*\<^sup>* xs (map (\<lambda>s. s\<lparr>cancelled := True\<rparr>) xs)" for xs
    by (induction xs) (simp_all add: rec_step.cancel r_into_rtranclp)
  then show ?thesis by (simp add: evolves_def cancelAll_def)
qed

lemma those_awaitTasks_steps:
  "those (map awaitTasks xs) = Some ss \<Longrightarrow> list_all2 rec_step\<^sup>*\<^sup>* xs ss"
proof (induction xs arbitrary: ss)
  case Nil
  then show ?case by simp
next
  case (Cons x xs)
  then obtain x' ss' where "awaitTasks x = Some x'" "those (map awaitTasks xs) = Some ss'"
    "ss = x' # ss'"
    by (auto split: option.splits)
  with Cons.IH[of ss'] awaitTasks_steps[of x x'] show ?case by simp
qed

lemma waitAll_evolves: "waitAll m = Some m' \<Longrightarrow> evolves m m'"
  by (auto simp: waitAll_def evolves_def split: option.splits dest: those_awaitTasks_steps)

lemma Shutdown_evolves: "Shutdown m = Some (r, m') \<Longrightarrow> evolves m m'"
proof -
  assume "Shutdown m = Some (r, m')"
  then obtain m1 where "stopAllServices (cancelAll m) = Some (r, m1)" "waitAll m1 = Some m'"
    by (auto simp: Shutdown_def Stop_def split: option.splits)
  with cancelAll_evolves[of m] show ?thesis
    by (meson evolves_trans stopAllServices_evolves waitAll_evolves)
qed

lemma taskExits_evolves: "evolves m (taskExits i r m)"
proof (cases "i < length (services m) \<and> wg (services m ! i) \<noteq> []")
  case True
  let ?s = "services m ! i"
  have "rec_step (taskReturn r ?s) ((taskReturn r ?s)\<lparr>wg := tl (wg ?s)\<rparr>)"
    by (rule rec_step.tasks)
  with taskReturn_steps[of ?s r]
  have "rec_step\<^sup>*\<^sup>* ?s ((taskReturn r ?s)\<lparr>wg := tl (wg ?s)\<rparr>)" by simp
  with True show ?thesis
    by (intro evolves_update[where i = i]) (simp_all add: taskExits_def)
next
  case False
  then show ?thesis by (auto simp: taskExits_def evolves_refl)
qed

lemma taskStoresError_evolves: "evolves m (taskStoresError i err m)"
proof (cases "i < length (services m) \<and> wg (services m ! i) \<noteq> []")
  case True
  have "rec_step\<^sup>*\<^sup>* (services m ! i) (setError (Some err) (services m ! i))"
    by (intro r_into_rtranclp rec_step.stored)
  with True show ?thesis
    by (intro evolves_update[where i = i]) (simp_all add: taskStoresError_def)
next
  case False
  then show ?thesis by (auto simp: taskStoresError_def evolves_refl)
qed

text \<open>
  A property of records that a new record has and that every write of the code
  keeps holds of every record of every manager a program can observe.
\<close>

lemma evolves_invariant:
  assumes step: "\<And>s s'. P s \<Longrightarrow> rec_step s s' \<Longrightarrow> P s'"
    and ev: "evolves m m'" and P: "\<forall>s\<in>set (services m). P s"
  shows "\<forall>s\<in>set (services m'). P s"
proof -
  have steps: "P s \<Longrightarrow> P s'" if "rec_step\<^sup>*\<^sup>* s s'" for s s'
    using that by (induction rule: rtranclp_induct) (auto intro: step)
  from ev have l: "list_all2 rec_step\<^sup>*\<^sup>* (services m) (services m')" by (simp add: evolves_def)
  show ?thesis
  proof
    fix s' assume "s' \<in> set (services m')"
    then obtain i where i: "i < length (services m')" "s' = services m' ! i"
      by (auto simp: in_set_conv_nth)
    from l i have "i < length (services m)" "rec_step\<^sup>*\<^sup>* (services m ! i) s'"
      by (auto simp: list_all2_conv_all_nth)
    with P steps show "P s'" by auto
  qed
qed

lemma reachable_invariant:
  assumes step: "\<And>s s'. P s \<Longrightarrow> rec_step s s' \<Longrightarrow> P s'"
    and fresh: "\<And>svc c. P (setState StateStopped
                   \<lparr>service = svc, state = StateStopped, cancelled = c,
                    lastError = None, wg = [], history = []\<rparr>)"
    and r: "reachable m"
  shows "\<forall>s\<in>set (services m). P s"
  using r
proof (induction rule: reachable.induct)
  case (new options)
  then show ?case by (simp add: NewManager_empty)
next
  case (register m svc)
  then show ?case by (auto simp: Register_def Let_def fresh)
next
  case (start m r m')
  from this(2) have "evolves m m'" unfolding Start_def by (rule startLoop_evolves)
  from evolves_invariant[of P, OF step this start.IH] show ?case .
next
  case (stop m r m')
  from this(2) have "evolves m m'" unfolding Stop_def by (rule stopAllServices_evolves)
  from evolves_invariant[of P, OF step this stop.IH] show ?case .
next
  case (startService m name)
  from evolves_invariant[of P, OF step StartService_evolves startService.IH] show ?case .
next
  case (stopService m name r m')
  from evolves_invariant[of P, OF step StopService_evolves[OF this(2)] stopService.IH]
  show ?case .
next
  case (shutdown m r m')
  from evolves_invariant[of P, OF step Shutdown_evolves[OF this(2)] shutdown.IH] show ?case .
next
  case (stores m i err)
  from evolves_invariant[of P, OF step taskStoresError_evolves stores.IH] show ?case .
next
  case (exits m i r)
  from evolves_invariant[of P, OF step taskExits_evolves exits.IH] show ?case .
qed

subsection \<open>The last error of a record in state Error\<close>

lemma error_stored_step:
  "rec_step s s' \<Longrightarrow> (getState s = StateError \<longrightarrow> getError s \<noteq> None) \<Longrightarrow>
   (getState s' = StateError \<longrightarrow> getError s' \<noteq> None)"
  by (induction rule: rec_step.induct)
     (simp_all add: setState_def setError_def getState_def getError_def)

lemma error_flip_step:
  "rec_step s s' \<Longrightarrow> getState s \<noteq> StateError \<Longrightarrow> getState s' = StateError \<Longrightarrow>
   getError s \<noteq> None \<and> getError s' = getError s"
  by (induction rule: rec_step.induct)
     (simp_all add: setState_def setError_def getState_def getError_def)

text \<open>
  C10.  In every manager a program can observe, a status entry whose state is
  \<open>StateError\<close> has a last error.  The reason is the order of the two writes: every
  operation changes a record by the writes of \<open>rec_step\<close> only, and a write that
  moves a record into \<open>StateError\<close> finds the error already stored and leaves it.
\<close>

theorem error_state_has_last_error:
  "reachable m \<Longrightarrow>
   (\<forall>info\<in>set (GetStatus m). InfoState info = StateError \<longrightarrow> InfoError info \<noteq> None) \<and>
   (\<forall>s s'. rec_step s s' \<and> getState s \<noteq> StateError \<and> getState s' = StateError \<longrightarrow>
        getError s \<noteq> None \<and> getError s' = getError s) \<and>
   (\<forall>r m'. Start m = Some (r, m') \<longrightarrow> evolves m m') \<and>
   (\<forall>r m'. Stop m = Some (r, m') \<longrightarrow> evolves m m') \<and>
   (\<forall>name. evolves m (snd (StartService m name))) \<and>
   (\<forall>name r m'. StopService m name = Some (r, m') \<longrightarrow> evolves m m') \<and>
   (\<forall>r m'. Shutdown m = Some (r, m') \<longrightarrow> evolves m m') \<and>
   (\<forall>i r. evolves m (taskExits i r m))"
proof -
  assume r: "reachable m"
  have "\<forall>s\<in>set (services m). getState s = StateError \<longrightarrow> getError s \<noteq> None"
  proof (rule reachable_invariant[OF _ _ r])
    fix s s' assume "getState s = StateError \<longrightarrow> getError s \<noteq> None" "rec_step s s'"
    from this(2,1) show "getState s' = StateError \<longrightarrow> getError s' \<noteq> None" by (rule error_stored_step)
  next
    fix svc c
    show "getState (setState StateStopped
                   \<lparr>service = svc, state = StateStopped, cancelled = c,
                    lastError = None, wg = [], history = []\<rparr>) = StateError \<longrightarrow>
          getError (setState StateStopped
                   \<lparr>service = svc, state = StateStopped, cancelled = c,
                    lastError = None, wg = [], history = []\<rparr>) \<noteq> None"
      by (simp add: setState_def getState_def)
  qed
  then have status: "\<forall>info\<in>set (GetStatus m). InfoState info = StateError \<longrightarrow> InfoError info \<noteq> None"
    by (auto simp: GetStatus_def)
  have start: "\<forall>r m'. Start m = Some (r, m') \<longrightarrow> evolves m m'"
    by (auto simp: Start_def dest: startLoop_evolves)
  have stop: "\<forall>r m'. Stop m = Some (r, m') \<longrightarrow> evolves m m'"
    by (auto simp: Stop_def dest: stopAllServices_evolves)
  from status error_flip_step start stop StartService_evolves StopService_evolves
    Shutdown_evolves taskExits_evolves
  show ?thesis by blast
qed

theorem error_state_has_last_error_witness:
  "GetStatus (snd (StartService (registered [failing ''b'']) ''b'')) =
     [\<lparr>InfoName = ''b'', InfoState = StateError, InfoError = Some (ServiceError ''boom'')\<rparr>]"
proof -
  let ?m = "snd (StartService (registered [failing ''b'']) ''b'')"
  have "reachable (NewManager [])" by (rule reachable.new)
  then have "reachable (snd (Register (NewManager []) (failing ''b'')))"
    by (rule reachable.register)
  then have "reachable (registered [failing ''b''])"
    by (simp add: registered_def split_beta)
  then have r: "reachable ?m" by (rule reachable.startService)
  have g: "GetStatus ?m \<noteq> [] \<and> InfoName (hd (GetStatus ?m)) = ''b'' \<and>
           InfoState (hd (GetStatus ?m)) = StateError \<and> length (GetStatus ?m) = 1"
    by (simp add: model_defs StartService_def GetStatus_def)
  with error_state_has_last_error[OF r]
  have "InfoError (hd (GetStatus ?m)) \<noteq> None" by (metis list.set_sel(1))
  moreover have "InfoError (hd (GetStatus ?m)) = None \<or>
      InfoError (hd (GetStatus ?m)) = Some (ServiceError ''boom'')"
    by (simp add: model_defs StartService_def GetStatus_def)
  ultimately have "InfoError (hd (GetStatus ?m)) = Some (ServiceError ''boom'')" by auto
  with g show ?thesis
    by (cases "GetStatus ?m") (auto intro: ServiceInfo.equality)
qed

subsection \<open>The moves of the state of a record\<close>

lemma follows_snoc:
  "h \<noteq> [] \<Longrightarrow> follows E (h @ [b]) = (follows E h \<and> (last h = b \<or> E (last h) b))"
  by (induction E h rule: follows.induct) auto

lemma setState_tracked:
  "history s \<noteq> [] \<and> last (history s) = getState s \<and> follows code_edge (history s) \<Longrightarrow>
   getState s = st \<or> code_edge (getState s) st \<Longrightarrow>
   history (setState st s) \<noteq> [] \<and> last (history (setState st s)) = getState (setState st s) \<and>
   follows code_edge (history (setState st s))"
  by (auto simp: setState_def getState_def follows_snoc)

lemma code_edge_writes:
  "a \<noteq> StateRunning \<Longrightarrow> a = StateStarting \<or> code_edge a StateStarting"
  "a = StateStarting \<or> a = StateStopped \<Longrightarrow> code_edge a StateRunning"
  "a \<noteq> StateStopped \<Longrightarrow> a = StateStopping \<or> code_edge a StateStopping"
  "a = StateStopped \<or> code_edge a StateStopped"
  "a = StateError \<or> code_edge a StateError"
  by (cases a; simp add: code_edge_def spec_edge_def)+

lemma tracked_step:
  "rec_step s s' \<Longrightarrow>
   history s \<noteq> [] \<and> last (history s) = getState s \<and> follows code_edge (history s) \<Longrightarrow>
   history s' \<noteq> [] \<and> last (history s') = getState s' \<and> follows code_edge (history s')"
proof (induction rule: rec_step.induct)
  case (starting s)
  from setState_tracked[OF starting(2), of StateStarting] code_edge_writes(1)[OF starting(1)]
  show ?case by blast
next
  case (running s)
  from setState_tracked[OF running(2), of StateRunning] code_edge_writes(2)[OF running(1)]
  show ?case by blast
next
  case (stopping s)
  from setState_tracked[OF stopping(2), of StateStopping] code_edge_writes(3)[OF stopping(1)]
  show ?case by blast
next
  case (stopped s)
  from setState_tracked[OF stopped, of StateStopped] code_edge_writes(4)[of "getState s"]
  show ?case by blast
next
  case (stored s err)
  then show ?case by (simp add: setError_def getState_def)
next
  case (failed s)
  from setState_tracked[OF failed(2), of StateError] code_edge_writes(5)[of "getState s"]
  show ?case by blast
next
  case (cancel s)
  then show ?case by (simp add: getState_def)
next
  case (tasks s w)
  then show ?case by (simp add: getState_def)
qed

text \<open>
  C2, as the code has it.  In every manager a program can observe, the history of the
  state of every record ends with the state the record has and follows the edges of
  the code: those of the specification and, besides, Starting to Stopped, Stopped to
  Running, Stopped to Error, Stopping to Starting, Error to Starting, Error to
  Stopping, Error to Stopped, Error to Running and Stopped to Stopping.  A goroutine
  that returns without error by itself moves a running record to \<open>StateStopped\<close>.
  No edge leads from \<open>StateStopping\<close> to \<open>StateRunning\<close> or from \<open>StateRunning\<close> to
  \<open>StateStarting\<close>.
\<close>

theorem state_follows_code_edges:
  "reachable m \<Longrightarrow>
   (\<forall>s\<in>set (services m).
      history s \<noteq> [] \<and> last (history s) = getState s \<and> follows code_edge (history s)) \<and>
   (\<forall>i. i < length (services m) \<and> getState (services m ! i) = StateRunning \<and>
        wg (services m ! i) \<noteq> [] \<longrightarrow>
        getState (services (taskExits i None m) ! i) = StateStopped) \<and>
   \<not> code_edge StateStopping StateRunning \<and> \<not> code_edge StateRunning StateStarting"
proof -
  assume r: "reachable m"
  have inv: "\<forall>s\<in>set (services m).
      history s \<noteq> [] \<and> last (history s) = getState s \<and> follows code_edge (history s)"
  proof (rule reachable_invariant[OF _ _ r])
    fix s s'
    assume "history s \<noteq> [] \<and> last (history s) = getState s \<and> follows code_edge (history s)"
      "rec_step s s'"
    from tracked_step[OF this(2,1)]
    show "history s' \<noteq> [] \<and> last (history s') = getState s' \<and> follows code_edge (history s')" .
  next
    fix svc c
    let ?s = "setState StateStopped
                   \<lparr>service = svc, state = StateStopped, cancelled = c,
                    lastError = None, wg = [], history = []\<rparr>"
    show "history ?s \<noteq> [] \<and> last (history ?s) = getState ?s \<and> follows code_edge (history ?s)"
      by (simp add: setState_def getState_def)
  qed
  have ex: "\<forall>i. i < length (services m) \<and> getState (services m ! i) = StateRunning \<and>
        wg (services m ! i) \<noteq> [] \<longrightarrow>
        getState (services (taskExits i None m) ! i) = StateStopped"
    by (simp add: taskExits_def taskReturn_def setState_def getState_def)
  have run: "\<not> code_edge StateStopping StateRunning \<and> \<not> code_edge StateRunning StateStarting"
    by (simp add: code_edge_def spec_edge_def)
  from inv ex run show ?thesis by blast
qed

lemma reachable_registerAll: "reachable m \<Longrightarrow> reachable (snd (registerAll m svcs))"
proof (induction svcs arbitrary: m)
  case Nil
  then show ?case by simp
next
  case (Cons svc svcs)
  from Cons.prems have "reachable (snd (Register m svc))" by (rule reachable.register)
  from Cons.IH[OF this] show ?case by (simp add: split_beta)
qed

lemma reachable_registered: "reachable (registered svcs)"
  unfolding registered_def by (rule reachable_registerAll) (rule reachable.new)

lemma reachable_started: "Start (registered svcs) = Some x \<Longrightarrow> reachable (started svcs)"
proof -
  assume a: "Start (registered svcs) = Some x"
  then have "Start (registered svcs) = Some (fst x, started svcs)" by (simp add: started_def)
  with reachable_registered show ?thesis by (rule reachable.start)
qed

lemma started_oneshot:
  "Start (registered [oneshot ''a'']) \<noteq> None \<and>
   history (services (started [oneshot ''a'']) ! 0) =
     [StateStopped, StateStarting, StateStopped, StateRunning] \<and>
   services (started [oneshot ''a'']) \<noteq> []"
  by (simp add: model_defs)

lemma started_rollback:
  "Start (registered [worker ''a'', failing ''b'']) \<noteq> None \<and>
   history (services (started [worker ''a'', failing ''b'']) ! 1) =
     [StateStopped, StateStarting, StateError, StateStopping]"
  by (simp add: model_defs stopAllServices_def)

theorem state_follows_code_edges_witness:
  "history (services (started [oneshot ''a'']) ! 0) =
     [StateStopped, StateStarting, StateStopped, StateRunning] \<and>
   follows code_edge (history (services (started [oneshot ''a'']) ! 0)) \<and>
   last (history (services (started [oneshot ''a'']) ! 0)) =
     getState (services (started [oneshot ''a'']) ! 0) \<and>
   getState (services (taskExits 0 None (started [worker ''a''])) ! 0) = StateStopped"
proof -
  let ?m = "started [oneshot ''a'']"
  let ?k = "started [worker ''a'']"
  from started_oneshot have "reachable ?m" by (auto intro: reachable_started)
  from state_follows_code_edges[OF this] started_oneshot
  have a: "last (history (services ?m ! 0)) = getState (services ?m ! 0) \<and>
           follows code_edge (history (services ?m ! 0))"
    by (metis nth_mem length_greater_0_conv)
  have "Start (registered [worker ''a'']) \<noteq> None" by (simp add: model_defs)
  then have "reachable ?k" by (auto intro: reachable_started)
  moreover have "0 < length (services ?k) \<and> getState (services ?k ! 0) = StateRunning \<and>
        wg (services ?k ! 0) \<noteq> []"
    by (simp add: model_defs)
  ultimately have "getState (services (taskExits 0 None ?k) ! 0) = StateStopped"
    using state_follows_code_edges[of ?k] by blast
  with a started_oneshot show ?thesis by simp
qed

text \<open>
  C2, as the specification has it, fails.  A service whose \<^verbatim>\<open>Start\<close> returns nil
  at once is set stopped by its goroutine inside the probe window and is then set
  running by \<open>Start\<close>: Starting to Stopped, then Stopped to Running.  A service whose
  \<^verbatim>\<open>Start\<close> fails is set \<open>StateError\<close> and is then set \<open>StateStopping\<close> by the
  rollback: Error to Stopping.
\<close>

theorem state_leaves_spec_edges:
  "reachable (started [oneshot ''a'']) \<and>
   history (services (started [oneshot ''a'']) ! 0) =
     [StateStopped, StateStarting, StateStopped, StateRunning] \<and>
   \<not> follows spec_edge (history (services (started [oneshot ''a'']) ! 0)) \<and>
   reachable (started [worker ''a'', failing ''b'']) \<and>
   history (services (started [worker ''a'', failing ''b'']) ! 1) =
     [StateStopped, StateStarting, StateError, StateStopping] \<and>
   \<not> follows spec_edge (history (services (started [worker ''a'', failing ''b'']) ! 1))"
proof -
  from started_oneshot have r1: "reachable (started [oneshot ''a''])"
    by (auto intro: reachable_started)
  from started_rollback have r2: "reachable (started [worker ''a'', failing ''b''])"
    by (auto intro: reachable_started)
  have n1: "\<not> follows spec_edge [StateStopped, StateStarting, StateStopped, StateRunning]"
    by (simp add: spec_edge_def)
  have n2: "\<not> follows spec_edge [StateStopped, StateStarting, StateError, StateStopping]"
    by (simp add: spec_edge_def)
  from r1 r2 n1 n2 started_oneshot started_rollback show ?thesis by simp
qed

end
